theory Spec2Isabelle
  imports Main "HOL-Library.Char_ord" "HOL-Library.List_Lexorder" "HOL-Library.Multiset"
begin

section \<open>Strings and paths of the Python runtime\<close>

text \<open>
  The tracer of \<^verbatim>\<open>sweflow_trace/python/hooks.py\<close> calls a handful of functions of
  the Python standard library on strings and POSIX paths. They are written out here
  as CPython defines them (\<^verbatim>\<open>posixpath.py\<close>, \<^verbatim>\<open>pathlib.py\<close>), on byte strings,
  so that the hook can be evaluated on concrete frames. Names of files and functions
  are taken to be ASCII.
\<close>

datatype exn = ValueError | IndexError | TimeoutExpired | OSError | JSONDecodeError
  | Exception string

definition startswith :: "string \<Rightarrow> string \<Rightarrow> bool" where
  "startswith s p = (take (length p) s = p)"

definition endswith :: "string \<Rightarrow> string \<Rightarrow> bool" where
  "endswith s p = (length p \<le> length s \<and> drop (length s - length p) s = p)"

text \<open>\<^verbatim>\<open>s.split(c)\<close> for a separator of one character: never the empty list.\<close>

fun split_char :: "char \<Rightarrow> string \<Rightarrow> string list" where
  "split_char c [] = [[]]"
| "split_char c (x # xs) =
     (if x = c then [] # split_char c xs
      else (case split_char c xs of [] \<Rightarrow> [[x]] | w # ws \<Rightarrow> (x # w) # ws))"

text \<open>\<^verbatim>\<open>sep.join(parts)\<close>.\<close>

fun join :: "string \<Rightarrow> string list \<Rightarrow> string" where
  "join sep [] = []"
| "join sep [p] = p"
| "join sep (p # q # ps) = p @ sep @ join sep (q # ps)"

definition os_sep :: string where
  "os_sep = ''/''"

text \<open>
  \<^verbatim>\<open>posixpath.normpath\<close>: one or two leading slashes are kept (three or more
  collapse to one), empty and \<^verbatim>\<open>.\<close> components go, and \<^verbatim>\<open>..\<close> removes the
  component before it where there is one to remove.
\<close>

definition initial_slashes :: "string \<Rightarrow> nat" where
  "initial_slashes path =
     (if startswith path ''/'' then
        (if startswith path ''//'' \<and> \<not> startswith path ''///'' then 2 else 1)
      else 0)"

definition normpath_step :: "nat \<Rightarrow> string list \<Rightarrow> string \<Rightarrow> string list" where
  "normpath_step slashes new_comps cmp =
     (if cmp = [] \<or> cmp = ''.'' then new_comps
      else if cmp \<noteq> ''..'' \<or> (slashes = 0 \<and> new_comps = [])
              \<or> (new_comps \<noteq> [] \<and> last new_comps = ''..'')
        then new_comps @ [cmp]
      else if new_comps \<noteq> [] then butlast new_comps
      else new_comps)"

definition normpath :: "string \<Rightarrow> string" where
  "normpath path =
     (if path = [] then ''.''
      else
        let slashes = initial_slashes path;
            comps = foldl (normpath_step slashes) [] (split_char CHR ''/'' path);
            path' = replicate slashes CHR ''/'' @ join ''/'' comps
        in if path' = [] then ''.'' else path')"

text \<open>\<^verbatim>\<open>posixpath.join(a, b)\<close> for two arguments.\<close>

definition path_join :: "string \<Rightarrow> string \<Rightarrow> string" where
  "path_join a b =
     (if startswith b ''/'' then b
      else if a = [] \<or> endswith a ''/'' then a @ b
      else a @ ''/'' @ b)"

text \<open>
  \<^verbatim>\<open>os.path.abspath(path)\<close>: a relative path is joined to the working directory
  of the process, \<^verbatim>\<open>os.getcwd()\<close>, given here as \<open>cwd\<close>.
\<close>

definition abspath :: "string \<Rightarrow> string \<Rightarrow> string" where
  "abspath cwd path =
     normpath (if \<not> startswith path ''/'' then path_join cwd path else path)"

text \<open>
  \<^verbatim>\<open>pathlib.PurePosixPath\<close>: a path is its root (\<^verbatim>\<open>/\<close>, \<^verbatim>\<open>//\<close> or none) and its
  components; empty and \<^verbatim>\<open>.\<close> components are dropped, \<^verbatim>\<open>..\<close> is kept.
  \<^verbatim>\<open>str(Path(p).relative_to(other))\<close> raises \<^verbatim>\<open>ValueError\<close> unless the two roots
  agree and the components of \<open>other\<close> start those of \<open>p\<close>.
\<close>

definition path_root :: "string \<Rightarrow> string" where
  "path_root p = replicate (initial_slashes p) CHR ''/''"

definition path_parts :: "string \<Rightarrow> string list" where
  "path_parts p = filter (\<lambda>c. c \<noteq> [] \<and> c \<noteq> ''.'') (split_char CHR ''/'' p)"

definition path_str :: "string \<Rightarrow> string list \<Rightarrow> string" where
  "path_str root parts =
     (if root = [] \<and> parts = [] then ''.'' else root @ join ''/'' parts)"

definition relative_to :: "string \<Rightarrow> string \<Rightarrow> exn + string" where
  "relative_to p other =
     (let n = length (path_parts other) in
      if path_root p = path_root other \<and> take n (path_parts p) = path_parts other
      then Inr (path_str [] (drop n (path_parts p)))
      else Inl ValueError)"

text \<open>\<^verbatim>\<open>str.isidentifier\<close> on ASCII, and \<^verbatim>\<open>keyword.iskeyword\<close>.\<close>

definition is_id_start :: "char \<Rightarrow> bool" where
  "is_id_start c =
     (c = CHR ''_'' \<or> (CHR ''a'' \<le> c \<and> c \<le> CHR ''z'') \<or> (CHR ''A'' \<le> c \<and> c \<le> CHR ''Z''))"

definition is_id_continue :: "char \<Rightarrow> bool" where
  "is_id_continue c = (is_id_start c \<or> (CHR ''0'' \<le> c \<and> c \<le> CHR ''9''))"

definition isidentifier :: "string \<Rightarrow> bool" where
  "isidentifier s =
     (case s of [] \<Rightarrow> False | c # cs \<Rightarrow> is_id_start c \<and> list_all is_id_continue cs)"

definition kwlist :: "string list" where
  "kwlist =
     [''False'', ''None'', ''True'', ''and'', ''as'', ''assert'', ''async'', ''await'',
      ''break'', ''class'', ''continue'', ''def'', ''del'', ''elif'', ''else'', ''except'',
      ''finally'', ''for'', ''from'', ''global'', ''if'', ''import'', ''in'', ''is'',
      ''lambda'', ''nonlocal'', ''not'', ''or'', ''pass'', ''raise'', ''return'', ''try'',
      ''while'', ''with'', ''yield'']"

definition iskeyword :: "string \<Rightarrow> bool" where
  "iskeyword s = (s \<in> set kwlist)"

section \<open>JSON values and the dedup key\<close>

text \<open>
  The edges the tracer records are dictionaries of strings, integers and
  \<^verbatim>\<open>None\<close>. \<^verbatim>\<open>json.dumps(v, sort_keys=True)\<close> is the value with the members of
  every object sorted by key, written out as text; that last step is one-to-one on
  such values, so the key kept in \<^verbatim>\<open>call_records_set\<close> is the sorted value itself.
\<close>

datatype json = JNull | JInt int | JStr string | JDict "(string \<times> json) list"

fun json_dumps_sort_keys :: "json \<Rightarrow> json" where
  "json_dumps_sort_keys (JDict items) =
     JDict (sort_key fst (map (\<lambda>(k, v). (k, json_dumps_sort_keys v)) items))"
| "json_dumps_sort_keys j = j"

section \<open>CallTracer\<close>

text \<open>
  The state of one \<^verbatim>\<open>CallTracer\<close>. The stack grows at the end of the list, as
  \<^verbatim>\<open>list.append\<close> and \<^verbatim>\<open>list.pop\<close> do; a frame on it is
  \<^verbatim>\<open>(relative path, function name, line)\<close>.
\<close>

type_synonym call_frame = "string \<times> string \<times> int"

record call_tracer =
  base_dir :: string
  call_stack :: "call_frame list"
  call_records :: "json list"
  call_records_set :: "json set"

text \<open>
  What \<^verbatim>\<open>trace_calls\<close> reads of its arguments and of the process: the event name,
  \<^verbatim>\<open>frame.f_code.co_filename\<close>, \<^verbatim>\<open>frame.f_code.co_name\<close>, \<^verbatim>\<open>frame.f_lineno\<close>,
  and the working directory at that moment (through \<^verbatim>\<open>os.path.abspath\<close>). The
  working directory is taken to exist: \<^verbatim>\<open>os.getcwd()\<close> returns it and does not
  raise.
\<close>

record frame_event =
  getcwd :: string
  event :: string
  co_filename :: string
  co_name :: string
  f_lineno :: int

definition CallTracer_init :: "string option \<Rightarrow> string \<Rightarrow> call_tracer" where
  "CallTracer_init base cwd =
     \<lparr>base_dir = (case base of None \<Rightarrow> cwd | Some b \<Rightarrow> b),
      call_stack = [], call_records = [], call_records_set = {}\<rparr>"

definition in_base_dir :: "string \<Rightarrow> string \<Rightarrow> string \<Rightarrow> bool" where
  "in_base_dir cwd base file_name =
     (let abs_path = abspath cwd file_name
      in startswith abs_path (base @ os_sep) \<and> endswith abs_path ''.py'')"

definition is_function :: "string \<Rightarrow> bool" where
  "is_function func_name =
     (if \<not> isidentifier func_name then False
      else if iskeyword func_name then False
      else True)"

definition new_record :: "json \<Rightarrow> json \<Rightarrow> json \<Rightarrow> string \<Rightarrow> int \<Rightarrow> string \<Rightarrow> json" where
  "new_record caller_file caller_line caller_func callee_file lineno func_name =
     JDict
       [(''caller'', JDict [(''filepath'', caller_file), (''lineno'', caller_line),
                            (''func_name'', caller_func)]),
        (''callee'', JDict [(''filepath'', JStr callee_file), (''lineno'', JInt lineno),
                            (''func_name'', JStr func_name)])]"

text \<open>
  \<^verbatim>\<open>trace_calls\<close>. The only statement of it that can raise is
  \<^verbatim>\<open>Path(file_name).relative_to(self.base_dir)\<close>, evaluated before the push; the
  second evaluation of the same expression for the callee gives the same string.
  The value the hook returns (itself) is left out.
\<close>

definition trace_calls :: "call_tracer \<Rightarrow> frame_event \<Rightarrow> exn + call_tracer" where
  "trace_calls self fe =
     (let file_name = co_filename fe; func_name = co_name fe; lineno = f_lineno fe in
      if event fe = ''call'' then
        if \<not> in_base_dir (getcwd fe) (base_dir self) file_name \<or> \<not> is_function func_name
        then Inr self
        else
          let (caller_file, caller_func, caller_line) =
                (if call_stack self \<noteq> []
                 then (case last (call_stack self) of (f, n, l) \<Rightarrow> (JStr f, JStr n, JInt l))
                 else (JNull, JNull, JNull))
          in case relative_to file_name (base_dir self) of
               Inl e \<Rightarrow> Inl e
             | Inr rel \<Rightarrow>
                 let self1 = self\<lparr>call_stack := call_stack self @ [(rel, func_name, lineno)]\<rparr>;
                     record = new_record caller_file caller_line caller_func rel lineno func_name;
                     record_key = json_dumps_sort_keys record
                 in if record_key \<in> call_records_set self1 then Inr self1
                    else if list_ex (\<lambda>v. v = JNull)
                              [caller_file, caller_func, caller_line,
                               JStr file_name, JStr func_name, JInt lineno]
                      then Inr self1
                    else Inr (self1\<lparr>call_records_set := insert record_key (call_records_set self1),
                                    call_records := call_records self1 @ [record]\<rparr>)
      else if event fe = ''return'' then
        if call_stack self \<noteq> [] then
          (case last (call_stack self) of
             (top_file, top_func, top_line) \<Rightarrow>
               if in_base_dir (getcwd fe) (base_dir self) top_file \<and> is_function top_func
                  \<and> top_func = func_name
               then Inr (self\<lparr>call_stack := butlast (call_stack self)\<rparr>)
               else Inr self)
        else Inr self
      else Inr self)"

text \<open>
  A stream of events through one tracer. An exception leaves the hook and ends the
  tracing, so the run stops at the first one.
\<close>

fun run :: "call_tracer \<Rightarrow> frame_event list \<Rightarrow> exn + call_tracer" where
  "run self [] = Inr self"
| "run self (fe # fes) =
     (case trace_calls self fe of Inl e \<Rightarrow> Inl e | Inr self' \<Rightarrow> run self' fes)"

definition eligible :: "string \<Rightarrow> frame_event \<Rightarrow> bool" where
  "eligible base fe =
     (in_base_dir (getcwd fe) base (co_filename fe) \<and> is_function (co_name fe))"

definition eligible_call :: "string \<Rightarrow> frame_event \<Rightarrow> bool" where
  "eligible_call base fe = (event fe = ''call'' \<and> eligible base fe)"

text \<open>
  The frame an eligible call pushes, and the edge recorded between a frame on the
  stack and the frame of a call.
\<close>

definition frame_of :: "string \<Rightarrow> frame_event \<Rightarrow> call_frame option" where
  "frame_of base fe =
     (case relative_to (co_filename fe) base of
        Inl x \<Rightarrow> None
      | Inr rel \<Rightarrow> Some (rel, co_name fe, f_lineno fe))"

definition edge_of :: "call_frame \<Rightarrow> call_frame \<Rightarrow> json" where
  "edge_of caller callee =
     (case (caller, callee) of
        ((cf, cn, cl), (df, dn, dl)) \<Rightarrow> new_record (JStr cf) (JInt cl) (JStr cn) df dl dn)"

text \<open>
  The edges a stream offers for recording, in the order seen: one for every eligible
  call that finds a caller on the stack. \<open>first_seen\<close> keeps the first occurrence
  of each element of a list, in order, after those already seen.
\<close>

definition offered :: "call_tracer \<Rightarrow> frame_event \<Rightarrow> json list" where
  "offered s e =
     (if eligible_call (base_dir s) e \<and> call_stack s \<noteq> [] then
        (case relative_to (co_filename e) (base_dir s) of
           Inl x \<Rightarrow> []
         | Inr rel \<Rightarrow> [edge_of (last (call_stack s)) (rel, co_name e, f_lineno e)])
      else [])"

fun attempted :: "call_tracer \<Rightarrow> frame_event list \<Rightarrow> json list" where
  "attempted s [] = []"
| "attempted s (e # es) =
     (case trace_calls s e of Inl x \<Rightarrow> [] | Inr s' \<Rightarrow> offered s e @ attempted s' es)"

fun first_seen :: "'a list \<Rightarrow> 'a list \<Rightarrow> 'a list" where
  "first_seen seen [] = seen"
| "first_seen seen (x # xs) = first_seen (if x \<in> set seen then seen else seen @ [x]) xs"

definition records_inv :: "call_tracer \<Rightarrow> bool" where
  "records_inv s =
     (call_records_set s = json_dumps_sort_keys ` set (call_records s)
      \<and> (\<forall>r \<in> set (call_records s). \<exists>a b. r = edge_of a b))"

text \<open>
  A frame comes from the calls \<open>E\<close> when an eligible call among them pushes it.
\<close>

definition from_calls :: "string \<Rightarrow> frame_event set \<Rightarrow> call_frame \<Rightarrow> bool" where
  "from_calls base E fr = (\<exists>e \<in> E. eligible_call base e \<and> frame_of base e = Some fr)"

definition frames_inv :: "string \<Rightarrow> frame_event set \<Rightarrow> call_tracer \<Rightarrow> bool" where
  "frames_inv base E s =
     ((\<forall>fr \<in> set (call_stack s). from_calls base E fr)
      \<and> (\<forall>r \<in> set (call_records s).
            \<exists>a b. from_calls base E a \<and> from_calls base E b \<and> r = edge_of a b))"

section \<open>Test discovery and the trace orchestrator\<close>

text \<open>
  \<^verbatim>\<open>sweflow_trace/python/trace.py\<close>. \<^verbatim>\<open>re.sub(r"\[.*?\]", "", s)\<close> removes, from
  left to right, every \<^verbatim>\<open>[\<close> together with the text up to the first \<^verbatim>\<open>]\<close> after
  it, when no line break stands between the two (the dot does not match one); a
  \<^verbatim>\<open>[\<close> that finds no such \<^verbatim>\<open>]\<close> stays.
\<close>

fun find_close :: "string \<Rightarrow> string option" where
  "find_close [] = None"
| "find_close (c # cs) =
     (if c = CHR '']'' then Some cs else if c = CHR 0x0A then None else find_close cs)"

lemma find_close_length: "find_close cs = Some rest \<Longrightarrow> length rest < length cs"
  by (induction cs) (auto split: if_splits)

function re_sub_brackets :: "string \<Rightarrow> string" where
  "re_sub_brackets [] = []"
| "re_sub_brackets (c # cs) =
     (if c = CHR ''[''
      then (case find_close cs of
              Some rest \<Rightarrow> re_sub_brackets rest
            | None \<Rightarrow> c # re_sub_brackets cs)
      else c # re_sub_brackets cs)"
  by pat_completeness auto
termination
  by (relation "measure length") (auto dest: find_close_length)

text \<open>\<^verbatim>\<open>s.split("::")\<close>.\<close>

fun split_dcolon :: "string \<Rightarrow> string list" where
  "split_dcolon [] = [[]]"
| "split_dcolon [c] = [[c]]"
| "split_dcolon (c # d # cs) =
     (if c = CHR '':'' \<and> d = CHR '':'' then [] # split_dcolon cs
      else (case split_dcolon (d # cs) of [] \<Rightarrow> [[c]] | w # ws \<Rightarrow> (c # w) # ws))"

text \<open>\<^verbatim>\<open>str(n)\<close> for an integer.\<close>

fun str_nat :: "nat \<Rightarrow> string" where
  "str_nat n =
     (if n < 10 then [''0123456789'' ! n]
      else str_nat (n div 10) @ [''0123456789'' ! (n mod 10)])"

declare str_nat.simps [simp del]

definition str_int :: "int \<Rightarrow> string" where
  "str_int i = (if i < 0 then CHR ''-'' # str_nat (nat (- i)) else str_nat (nat i))"

text \<open>
  The reports of pytest are read as typed documents: a collection report is the list
  of its collectors' result lists, a test result carries \<^verbatim>\<open>nodeid\<close>, \<^verbatim>\<open>lineno\<close>
  and \<^verbatim>\<open>outcome\<close>.
\<close>

record collect_result =
  res_type :: string
  res_nodeid :: string

record test_result =
  nodeid :: string
  lineno :: int
  outcome :: string

definition get_test_func_id :: "test_result \<Rightarrow> string" where
  "get_test_func_id tr =
     (let func_node = re_sub_brackets (nodeid tr);
          filepath = hd (split_dcolon func_node);
          func_name = last (split_dcolon func_node);
          line = lineno tr + 1
      in filepath @ '':'' @ str_int line @ '':'' @ func_name)"

text \<open>
  What \<^verbatim>\<open>collect_tests\<close> takes from the interpreter: the order in which
  \<^verbatim>\<open>list(set(xs))\<close> lists the elements of the set (Python leaves it open), and the
  generator of the \<^verbatim>\<open>random\<close> module, as the state \<^verbatim>\<open>seed\<close> sets and the draw
  \<^verbatim>\<open>_randbelow(n)\<close>, which returns a number below \<open>n\<close> and the next state.
\<close>

record 'g runtime =
  set_iter :: "string list \<Rightarrow> string list"
  rnd_seed :: "int \<Rightarrow> 'g"
  rnd_randbelow :: "'g \<Rightarrow> nat \<Rightarrow> nat \<times> 'g"

text \<open>
  \<^verbatim>\<open>random.shuffle(x)\<close>: for \<open>i\<close> from \<open>len(x) - 1\<close> down to 1, draw
  \<open>j = randbelow(i + 1)\<close> and swap \<open>x[i]\<close> and \<open>x[j]\<close>.
\<close>

fun shuffle_from :: "('g \<Rightarrow> nat \<Rightarrow> nat \<times> 'g) \<Rightarrow> nat \<Rightarrow> 'g \<Rightarrow> 'a list \<Rightarrow> 'a list \<times> 'g" where
  "shuffle_from rb 0 g x = (x, g)"
| "shuffle_from rb (Suc k) g x =
     (case rb g (Suc k + 1) of
        (j, g') \<Rightarrow> shuffle_from rb k g' (x[Suc k := x ! j, j := x ! Suc k]))"

definition shuffle :: "('g \<Rightarrow> nat \<Rightarrow> nat \<times> 'g) \<Rightarrow> 'g \<Rightarrow> 'a list \<Rightarrow> 'a list \<times> 'g" where
  "shuffle rb g x = shuffle_from rb (length x - 1) g x"

text \<open>The slice \<^verbatim>\<open>xs[:n]\<close>; a negative \<open>n\<close> counts from the end.\<close>

definition slice_to :: "int \<Rightarrow> 'a list \<Rightarrow> 'a list" where
  "slice_to n xs = (if 0 \<le> n then take (nat n) xs else take (length xs - nat (- n)) xs)"

text \<open>
  \<^verbatim>\<open>collect_tests\<close>, from the return code of the collecting pytest run and the
  report it wrote. It returns the test ids and leaves the generator in a new state.
\<close>

definition canonical_ids :: "collect_result list list \<Rightarrow> string list" where
  "canonical_ids collectors =
     map re_sub_brackets
       (concat (map (\<lambda>collector.
          map res_nodeid
            (filter (\<lambda>res. res_type res \<in> set [''Function'', ''TestCaseFunction'']) collector))
          collectors))"

definition collect_tests ::
  "'g runtime \<Rightarrow> 'g \<Rightarrow> int \<Rightarrow> collect_result list list \<Rightarrow> bool \<Rightarrow> int \<Rightarrow> int option
     \<Rightarrow> exn + (string list \<times> 'g)" where
  "collect_tests rt g returncode collectors random random_seed max_tests =
     (if returncode \<noteq> 0
      then Inl (Exception (''pytest failed with return code '' @ str_int returncode))
      else
        let tests = set_iter rt (canonical_ids collectors);
            (tests, g) = (if random
                          then shuffle (rnd_randbelow rt) (rnd_seed rt random_seed) tests
                          else (tests, g));
            tests = (case max_tests of
                       None \<Rightarrow> tests
                     | Some n \<Rightarrow> if n \<noteq> 0 then slice_to n tests else tests)
        in Inr (tests, g))"

text \<open>
  \<^verbatim>\<open>trace_test\<close>. What the world does for one test is given as the outcome of each
  effect, in the order the function performs them: creating the temporary directory,
  running the traced pytest (a return code, or \<^verbatim>\<open>TimeoutExpired\<close>), reading the
  \<^verbatim>\<open>tests\<close> of the report, reading the trace file, and removing the directory when
  the \<^verbatim>\<open>with\<close> block is left. Every exception these raise derives from
  \<^verbatim>\<open>Exception\<close>.
\<close>

record test_io =
  tempdir :: "exn + string"
  subprocess_run :: "exn + int"
  report_tests :: "exn + test_result list"
  trace_file :: "exn + json list"
  cleanup :: "exn option"

record trace_record =
  test_id :: string
  test_func_id :: string
  call_relations :: "json list"

definition run_trace_test :: "test_io \<Rightarrow> exn + unit" where
  "run_trace_test io =
     (case subprocess_run io of
        Inl e \<Rightarrow> Inl e
      | Inr returncode \<Rightarrow>
          if returncode \<noteq> 0
          then Inl (Exception (''pytest failed with return code '' @ str_int returncode))
          else Inr ())"

text \<open>
  The body of the \<^verbatim>\<open>with\<close> block: \<open>Inr None\<close> is the early \<^verbatim>\<open>return None\<close>,
  \<open>Inr (Some (test_result, call_relationships))\<close> falls through to the code after
  the block.
\<close>

definition with_body :: "test_io \<Rightarrow> exn + (test_result \<times> json list) option" where
  "with_body io =
     (case run_trace_test io of
        Inl e \<Rightarrow> Inl e
      | Inr u \<Rightarrow>
          (case report_tests io of
             Inl e \<Rightarrow> Inl e
           | Inr tests \<Rightarrow>
               (case tests of
                  [] \<Rightarrow> Inl IndexError
                | test_result # rest \<Rightarrow>
                    if outcome test_result \<noteq> ''passed'' then Inr None
                    else (case trace_file io of
                            Inl e \<Rightarrow> Inl e
                          | Inr call_relationships \<Rightarrow>
                              Inr (Some (test_result, call_relationships))))))"

text \<open>
  Leaving the \<^verbatim>\<open>with\<close> block, by its end, by \<^verbatim>\<open>return\<close> or by an exception,
  removes the directory; an exception raised there takes the place of what the body
  did.
\<close>

definition leave_with :: "exn + 'a \<Rightarrow> exn option \<Rightarrow> exn + 'a" where
  "leave_with body exit_raises = (case exit_raises of Some e \<Rightarrow> Inl e | None \<Rightarrow> body)"

definition try_body :: "test_io \<Rightarrow> string \<Rightarrow> exn + trace_record option" where
  "try_body io test =
     (case tempdir io of
        Inl e \<Rightarrow> Inl e
      | Inr temp_dir \<Rightarrow>
          (case leave_with (with_body io) (cleanup io) of
             Inl e \<Rightarrow> Inl e
           | Inr None \<Rightarrow> Inr None
           | Inr (Some (test_result, call_relationships)) \<Rightarrow>
               Inr (Some \<lparr>test_id = test,
                          test_func_id = get_test_func_id test_result,
                          call_relations = call_relationships\<rparr>)))"

definition trace_test :: "test_io \<Rightarrow> string \<Rightarrow> trace_record option" where
  "trace_test io test = (case try_body io test of Inl e \<Rightarrow> None | Inr result \<Rightarrow> result)"

text \<open>
  \<^verbatim>\<open>generate_test_traces\<close>: task \<open>i\<close> is \<open>trace_test\<close> on \<open>tests ! i\<close>; the
  futures are read in the order they complete, \<open>completed\<close>, and every result that is
  not \<^verbatim>\<open>None\<close> is appended to the traces written to \<^verbatim>\<open>traces.json\<close>.
\<close>

fun gather :: "(nat \<Rightarrow> trace_record option) \<Rightarrow> nat list \<Rightarrow> trace_record list \<Rightarrow> trace_record list" where
  "gather result [] traces = traces"
| "gather result (future # futures) traces =
     gather result futures
       (case result future of None \<Rightarrow> traces | Some r \<Rightarrow> traces @ [r])"

definition generate_test_traces ::
  "(nat \<Rightarrow> test_io) \<Rightarrow> string list \<Rightarrow> nat list \<Rightarrow> trace_record list" where
  "generate_test_traces io tests completed =
     gather (\<lambda>i. trace_test (io i) (tests ! i)) completed []"

section \<open>Steps of the tracer\<close>

lemma run_append:
  "run s (xs @ ys) = (case run s xs of Inl e \<Rightarrow> Inl e | Inr s' \<Rightarrow> run s' ys)"
  by (induction xs arbitrary: s) (auto split: sum.splits)

lemma trace_calls_call_ineligible:
  "event e = ''call'' \<Longrightarrow> \<not> eligible (base_dir s) e \<Longrightarrow> trace_calls s e = Inr s"
  by (auto simp: trace_calls_def eligible_def Let_def)

lemma trace_calls_other:
  "event e \<noteq> ''call'' \<Longrightarrow> event e \<noteq> ''return'' \<Longrightarrow> trace_calls s e = Inr s"
  by (simp add: trace_calls_def Let_def)

lemma trace_calls_return:
  "event e = ''return'' \<Longrightarrow>
   trace_calls s e =
     Inr (if call_stack s \<noteq> []
             \<and> in_base_dir (getcwd e) (base_dir s) (fst (last (call_stack s)))
             \<and> is_function (fst (snd (last (call_stack s))))
             \<and> fst (snd (last (call_stack s))) = co_name e
          then s\<lparr>call_stack := butlast (call_stack s)\<rparr> else s)"
  by (auto simp: trace_calls_def Let_def split: prod.splits)

lemma trace_calls_call_eligible:
  assumes "event e = ''call''" and "eligible (base_dir s) e"
  shows "trace_calls s e =
    (case relative_to (co_filename e) (base_dir s) of
       Inl x \<Rightarrow> Inl x
     | Inr rel \<Rightarrow>
         Inr (let callee = (rel, co_name e, f_lineno e);
                  s1 = s\<lparr>call_stack := call_stack s @ [callee]\<rparr>
              in if call_stack s = [] then s1
                 else if json_dumps_sort_keys (edge_of (last (call_stack s)) callee)
                           \<in> call_records_set s then s1
                 else s1\<lparr>call_records_set :=
                            insert (json_dumps_sort_keys (edge_of (last (call_stack s)) callee))
                              (call_records_set s),
                          call_records := call_records s @ [edge_of (last (call_stack s)) callee]\<rparr>))"
  using assms
  by (auto simp: trace_calls_def eligible_def Let_def edge_of_def split: prod.splits sum.splits)

lemma base_dir_trace_calls: "trace_calls s e = Inr s' \<Longrightarrow> base_dir s' = base_dir s"
  by (auto simp: trace_calls_def Let_def split: if_splits prod.splits sum.splits)

lemma base_dir_run: "run s es = Inr s' \<Longrightarrow> base_dir s' = base_dir s"
proof (induction es arbitrary: s)
  case Nil
  then show ?case by simp
next
  case (Cons e es)
  then obtain s1 where "trace_calls s e = Inr s1" and "run s1 es = Inr s'"
    by (auto split: sum.splits)
  with Cons.IH [of s1] show ?case by (simp add: base_dir_trace_calls)
qed

subsection \<open>The dedup key\<close>

lemma key_edge_of:
  "json_dumps_sort_keys (edge_of (cf, cn, cl) (df, dn, dl)) =
     JDict [(''callee'', JDict [(''filepath'', JStr df), (''func_name'', JStr dn),
                                (''lineno'', JInt dl)]),
            (''caller'', JDict [(''filepath'', JStr cf), (''func_name'', JStr cn),
                                (''lineno'', JInt cl)])]"
  by (simp add: edge_of_def new_record_def)

lemma key_edge_of_inj:
  "json_dumps_sort_keys (edge_of a b) = json_dumps_sort_keys (edge_of a' b')
     \<longleftrightarrow> a = a' \<and> b = b'"
  by (cases a; cases b; cases a'; cases b') (auto simp: key_edge_of)

lemma edge_of_inj: "edge_of a b = edge_of a' b' \<longleftrightarrow> a = a' \<and> b = b'"
  by (cases a; cases b; cases a'; cases b') (auto simp: edge_of_def new_record_def)

subsection \<open>The record list and its key set\<close>

lemma first_seen_append: "first_seen seen (xs @ ys) = first_seen (first_seen seen xs) ys"
  by (induction xs arbitrary: seen) auto

lemma set_first_seen: "set (first_seen seen xs) = set seen \<union> set xs"
  by (induction xs arbitrary: seen) auto

lemma distinct_first_seen: "distinct seen \<Longrightarrow> distinct (first_seen seen xs)"
  by (induction xs arbitrary: seen) auto

lemma count_list_distinct: "distinct xs \<Longrightarrow> x \<in> set xs \<Longrightarrow> count_list xs x = 1"
  by (induction xs) auto

lemma records_inv_init: "records_inv (CallTracer_init base cwd)"
  by (simp add: records_inv_def CallTracer_init_def)

lemma key_in_set_iff:
  assumes "records_inv s"
  shows "json_dumps_sort_keys (edge_of a b) \<in> call_records_set s
           \<longleftrightarrow> edge_of a b \<in> set (call_records s)"
proof
  assume "json_dumps_sort_keys (edge_of a b) \<in> call_records_set s"
  then obtain r where r: "r \<in> set (call_records s)"
    and k: "json_dumps_sort_keys r = json_dumps_sort_keys (edge_of a b)"
    using assms by (auto simp: records_inv_def)
  from r assms obtain a' b' where "r = edge_of a' b'" by (auto simp: records_inv_def)
  with k have "r = edge_of a b" by (simp add: key_edge_of_inj)
  with r show "edge_of a b \<in> set (call_records s)" by simp
next
  assume "edge_of a b \<in> set (call_records s)"
  then show "json_dumps_sort_keys (edge_of a b) \<in> call_records_set s"
    using assms by (auto simp: records_inv_def)
qed

lemma step_records:
  assumes inv: "records_inv s" and step: "trace_calls s e = Inr s'"
  shows "records_inv s' \<and> call_records s' = first_seen (call_records s) (offered s e)"
proof (cases "eligible_call (base_dir s) e")
  case False
  then have "trace_calls s e = Inr s \<or> event e = ''return''"
    using trace_calls_call_ineligible [of e s] trace_calls_other [of e s]
    by (auto simp: eligible_call_def)
  moreover have "offered s e = []" using False by (simp add: offered_def)
  moreover have "event e = ''return'' \<Longrightarrow>
      call_records s' = call_records s \<and> call_records_set s' = call_records_set s"
    using step trace_calls_return [of e s] by (auto split: if_splits)
  ultimately show ?thesis using inv step by (auto simp: records_inv_def)
next
  case True
  then have c: "event e = ''call''" and el: "eligible (base_dir s) e"
    by (simp_all add: eligible_call_def)
  from step obtain rel where rel: "relative_to (co_filename e) (base_dir s) = Inr rel"
    using trace_calls_call_eligible [OF c el] by (auto split: sum.splits)
  show ?thesis
  proof (cases "call_stack s = []")
    case True
    then show ?thesis
      using step inv rel trace_calls_call_eligible [OF c el] \<open>eligible_call (base_dir s) e\<close>
      by (auto simp: offered_def records_inv_def Let_def)
  next
    case False
    let ?r = "edge_of (last (call_stack s)) (rel, co_name e, f_lineno e)"
    have off: "offered s e = [?r]"
      using False rel \<open>eligible_call (base_dir s) e\<close> by (simp add: offered_def)
    show ?thesis
    proof (cases "?r \<in> set (call_records s)")
      case True
      then have "json_dumps_sort_keys ?r \<in> call_records_set s"
        using key_in_set_iff [OF inv] by simp
      then show ?thesis
        using step inv rel False True off trace_calls_call_eligible [OF c el]
        by (auto simp: records_inv_def Let_def)
    next
      case nin: False
      then have "json_dumps_sort_keys ?r \<notin> call_records_set s"
        using key_in_set_iff [OF inv] by simp
      then have s': "s' = s\<lparr>call_stack := call_stack s @ [(rel, co_name e, f_lineno e)],
                          call_records_set := insert (json_dumps_sort_keys ?r) (call_records_set s),
                          call_records := call_records s @ [?r]\<rparr>"
        using step rel False trace_calls_call_eligible [OF c el] by (simp add: Let_def)
      have shape: "\<exists>a b. ?r = edge_of a b" by blast
      show ?thesis
        using inv nin off shape by (auto simp: s' records_inv_def)
    qed
  qed
qed

lemma run_records:
  "records_inv s \<Longrightarrow> run s es = Inr s' \<Longrightarrow>
   records_inv s' \<and> call_records s' = first_seen (call_records s) (attempted s es)"
proof (induction es arbitrary: s)
  case Nil
  then show ?case by simp
next
  case (Cons e es)
  from Cons.prems obtain s1 where s1: "trace_calls s e = Inr s1" and r: "run s1 es = Inr s'"
    by (auto split: sum.splits)
  from step_records [OF Cons.prems(1) s1]
  have i1: "records_inv s1" and c1: "call_records s1 = first_seen (call_records s) (offered s e)"
    by simp_all
  from Cons.IH [OF i1 r] show ?case
    using s1 c1 by (simp add: first_seen_append)
qed

section \<open>The claims about the tracer\<close>

text \<open>
  C2. An eligible return does not always pop the eligible frame of its own call. The
  frame on the stack holds the path relative to the base directory, and the return
  branch gives that path to \<^verbatim>\<open>_in_base_dir\<close>, which resolves it against the
  working directory. With the base directory \<^verbatim>\<open>/base\<close> and the working directory
  \<^verbatim>\<open>/tmp\<close>, the call of \<^verbatim>\<open>f\<close> in \<^verbatim>\<open>/base/a.py\<close> is eligible and pushed; at
  its return the stack is not empty, the function names agree, the returning frame
  is eligible, and the stack stays as it is.
\<close>

theorem matching_return_not_popped:
  "run (CallTracer_init (Some ''/base'') ''/tmp'')
     [\<lparr>getcwd = ''/tmp'', event = ''call'', co_filename = ''/base/a.py'',
       co_name = ''f'', f_lineno = 1\<rparr>]
   = Inr \<lparr>base_dir = ''/base'', call_stack = [(''a.py'', ''f'', 1)],
          call_records = [], call_records_set = {}\<rparr>
   \<and> eligible ''/base''
        \<lparr>getcwd = ''/tmp'', event = ''return'', co_filename = ''/base/a.py'',
         co_name = ''f'', f_lineno = 2\<rparr>
   \<and> is_function ''f''
   \<and> trace_calls
        \<lparr>base_dir = ''/base'', call_stack = [(''a.py'', ''f'', 1)],
         call_records = [], call_records_set = {}\<rparr>
        \<lparr>getcwd = ''/tmp'', event = ''return'', co_filename = ''/base/a.py'',
         co_name = ''f'', f_lineno = 2\<rparr>
     = Inr \<lparr>base_dir = ''/base'', call_stack = [(''a.py'', ''f'', 1)],
            call_records = [], call_records_set = {}\<rparr>"
  by code_simp

theorem matching_return_not_popped_witness:
  "map_sum id call_stack
     (run (CallTracer_init (Some ''/base'') ''/tmp'')
        [\<lparr>getcwd = ''/tmp'', event = ''call'', co_filename = ''/base/a.py'',
          co_name = ''f'', f_lineno = 1\<rparr>,
         \<lparr>getcwd = ''/tmp'', event = ''return'', co_filename = ''/base/a.py'',
          co_name = ''f'', f_lineno = 2\<rparr>])
   = Inr [(''a.py'', ''f'', 1)]"
  using matching_return_not_popped run_append [of "CallTracer_init (Some ''/base'') ''/tmp''"
    "[\<lparr>getcwd = ''/tmp'', event = ''call'', co_filename = ''/base/a.py'',
          co_name = ''f'', f_lineno = 1\<rparr>]"
    "[\<lparr>getcwd = ''/tmp'', event = ''return'', co_filename = ''/base/a.py'',
          co_name = ''f'', f_lineno = 2\<rparr>]"]
  by simp

text \<open>
  C5. An eligible call appends an edge only if a caller is on the stack at that
  moment, and the edge appended then carries all six fields (path, line and function
  name of the caller on top of the stack and of the callee), none of them null. A
  call that finds the stack empty, the entry point, is still pushed and records no
  edge.
\<close>

theorem edge_only_with_caller:
  assumes "eligible_call (base_dir s) e" and "trace_calls s e = Inr s'"
  shows "\<exists>rel. relative_to (co_filename e) (base_dir s) = Inr rel
           \<and> call_stack s' = call_stack s @ [(rel, co_name e, f_lineno e)]
           \<and> (call_stack s = [] \<longrightarrow> call_records s' = call_records s)
           \<and> (call_records s' \<noteq> call_records s \<longrightarrow>
                call_stack s \<noteq> []
                \<and> (\<exists>cf cn cl. last (call_stack s) = (cf, cn, cl)
                      \<and> call_records s' =
                          call_records s @
                            [new_record (JStr cf) (JInt cl) (JStr cn) rel (f_lineno e) (co_name e)]))"
proof -
  from assms(1) have c: "event e = ''call''" and el: "eligible (base_dir s) e"
    by (simp_all add: eligible_call_def)
  from assms(2) obtain rel where rel: "relative_to (co_filename e) (base_dir s) = Inr rel"
    using trace_calls_call_eligible [OF c el] by (auto split: sum.splits)
  obtain cf cn cl where top: "last (call_stack s) = (cf, cn, cl)"
    by (cases "last (call_stack s)") auto
  have "call_stack s' = call_stack s @ [(rel, co_name e, f_lineno e)]"
    using assms(2) rel trace_calls_call_eligible [OF c el]
    by (auto simp: Let_def split: if_splits)
  moreover have "call_stack s = [] \<longrightarrow> call_records s' = call_records s"
    using assms(2) rel trace_calls_call_eligible [OF c el]
    by (auto simp: Let_def split: if_splits)
  moreover have "call_records s' \<noteq> call_records s \<longrightarrow>
      call_stack s \<noteq> []
      \<and> call_records s' =
          call_records s @ [new_record (JStr cf) (JInt cl) (JStr cn) rel (f_lineno e) (co_name e)]"
    using assms(2) rel top trace_calls_call_eligible [OF c el]
    by (auto simp: Let_def edge_of_def split: if_splits)
  ultimately show ?thesis using rel top by blast
qed

theorem edge_only_with_caller_witness:
  "eligible_call ''/base''
     \<lparr>getcwd = ''/base'', event = ''call'', co_filename = ''/base/test.py'',
      co_name = ''test_function'', f_lineno = 10\<rparr>
   \<and> trace_calls (CallTracer_init (Some ''/base'') ''/base'')
       \<lparr>getcwd = ''/base'', event = ''call'', co_filename = ''/base/test.py'',
        co_name = ''test_function'', f_lineno = 10\<rparr>
     = Inr \<lparr>base_dir = ''/base'', call_stack = [(''test.py'', ''test_function'', 10)],
            call_records = [], call_records_set = {}\<rparr>
   \<and> relative_to ''/base/test.py'' ''/base'' = Inr ''test.py''"
proof -
  let ?s = "CallTracer_init (Some ''/base'') ''/base''"
  let ?e = "\<lparr>getcwd = ''/base'', event = ''call'', co_filename = ''/base/test.py'',
      co_name = ''test_function'', f_lineno = 10\<rparr>"
  let ?s' = "\<lparr>base_dir = ''/base'', call_stack = [(''test.py'', ''test_function'', 10)],
            call_records = [], call_records_set = {}\<rparr>"
  have e: "eligible_call ''/base'' ?e" by code_simp
  have t: "trace_calls ?s ?e = Inr ?s'" by code_simp
  have b: "base_dir ?s = ''/base''" by (simp add: CallTracer_init_def)
  from e have e': "eligible_call (base_dir ?s) ?e" by (simp add: b)
  show ?thesis
    using edge_only_with_caller [OF e' t] e t by (auto simp: b)
qed

text \<open>
  C3. The exported list of one tracer is the stream of offered edges with every edge
  kept once, at its first occurrence: however often an edge is offered, the list holds
  it exactly once, and distinct edges stand in the order first seen. Two edges have
  the same key, the serialization with sorted keys, exactly when their six fields are
  equal.
\<close>

theorem export_dedup_first_seen:
  assumes "run (CallTracer_init base cwd) es = Inr s"
  shows "call_records s = first_seen [] (attempted (CallTracer_init base cwd) es)
       \<and> distinct (call_records s)
       \<and> (\<forall>r \<in> set (attempted (CallTracer_init base cwd) es). count_list (call_records s) r = 1)
       \<and> (json_dumps_sort_keys (new_record (JStr cf) (JInt cl) (JStr cn) df dl dn)
            = json_dumps_sort_keys (new_record (JStr cf') (JInt cl') (JStr cn') df' dl' dn')
          \<longleftrightarrow> cf = cf' \<and> cl = cl' \<and> cn = cn' \<and> df = df' \<and> dl = dl' \<and> dn = dn')"
proof -
  let ?i = "CallTracer_init base cwd"
  have rec: "call_records s = first_seen [] (attempted ?i es)"
    using run_records [OF records_inv_init assms] by (simp add: CallTracer_init_def)
  have d: "distinct (call_records s)"
    unfolding rec by (rule distinct_first_seen) simp
  have "\<forall>r \<in> set (attempted ?i es). count_list (call_records s) r = 1"
  proof
    fix r assume "r \<in> set (attempted ?i es)"
    then have "r \<in> set (call_records s)" by (simp add: rec set_first_seen)
    with d show "count_list (call_records s) r = 1" by (rule count_list_distinct)
  qed
  moreover have "json_dumps_sort_keys (new_record (JStr cf) (JInt cl) (JStr cn) df dl dn)
            = json_dumps_sort_keys (new_record (JStr cf') (JInt cl') (JStr cn') df' dl' dn')
          \<longleftrightarrow> cf = cf' \<and> cl = cl' \<and> cn = cn' \<and> df = df' \<and> dl = dl' \<and> dn = dn'"
    using key_edge_of_inj [of "(cf, cn, cl)" "(df, dn, dl)" "(cf', cn', cl')" "(df', dn', dl')"]
    by (auto simp: edge_of_def)
  ultimately show ?thesis using rec d by blast
qed

theorem export_dedup_first_seen_witness:
  "run (CallTracer_init None ''/base'')
     [\<lparr>getcwd = ''/base'', event = ''call'', co_filename = ''/base/a.py'', co_name = ''main'', f_lineno = 3\<rparr>,
      \<lparr>getcwd = ''/base'', event = ''call'', co_filename = ''/base/b.py'', co_name = ''helper'', f_lineno = 7\<rparr>,
      \<lparr>getcwd = ''/base'', event = ''return'', co_filename = ''/base/b.py'', co_name = ''helper'', f_lineno = 9\<rparr>,
      \<lparr>getcwd = ''/base'', event = ''call'', co_filename = ''/base/b.py'', co_name = ''helper'', f_lineno = 7\<rparr>]
   = Inr \<lparr>base_dir = ''/base'',
          call_stack = [(''a.py'', ''main'', 3), (''b.py'', ''helper'', 7)],
          call_records = [edge_of (''a.py'', ''main'', 3) (''b.py'', ''helper'', 7)],
          call_records_set = {json_dumps_sort_keys (edge_of (''a.py'', ''main'', 3) (''b.py'', ''helper'', 7))}\<rparr>
   \<and> attempted (CallTracer_init None ''/base'')
     [\<lparr>getcwd = ''/base'', event = ''call'', co_filename = ''/base/a.py'', co_name = ''main'', f_lineno = 3\<rparr>,
      \<lparr>getcwd = ''/base'', event = ''call'', co_filename = ''/base/b.py'', co_name = ''helper'', f_lineno = 7\<rparr>,
      \<lparr>getcwd = ''/base'', event = ''return'', co_filename = ''/base/b.py'', co_name = ''helper'', f_lineno = 9\<rparr>,
      \<lparr>getcwd = ''/base'', event = ''call'', co_filename = ''/base/b.py'', co_name = ''helper'', f_lineno = 7\<rparr>]
   = [edge_of (''a.py'', ''main'', 3) (''b.py'', ''helper'', 7),
      edge_of (''a.py'', ''main'', 3) (''b.py'', ''helper'', 7)]"
proof -
  let ?es = "[\<lparr>getcwd = ''/base'', event = ''call'', co_filename = ''/base/a.py'', co_name = ''main'', f_lineno = 3\<rparr>,
      \<lparr>getcwd = ''/base'', event = ''call'', co_filename = ''/base/b.py'', co_name = ''helper'', f_lineno = 7\<rparr>,
      \<lparr>getcwd = ''/base'', event = ''return'', co_filename = ''/base/b.py'', co_name = ''helper'', f_lineno = 9\<rparr>,
      \<lparr>getcwd = ''/base'', event = ''call'', co_filename = ''/base/b.py'', co_name = ''helper'', f_lineno = 7\<rparr>]"
  let ?s = "\<lparr>base_dir = ''/base'',
          call_stack = [(''a.py'', ''main'', 3), (''b.py'', ''helper'', 7)],
          call_records = [edge_of (''a.py'', ''main'', 3) (''b.py'', ''helper'', 7)],
          call_records_set = {json_dumps_sort_keys (edge_of (''a.py'', ''main'', 3) (''b.py'', ''helper'', 7))}\<rparr>"
  have r: "run (CallTracer_init None ''/base'') ?es = Inr ?s" by code_simp
  have a: "attempted (CallTracer_init None ''/base'') ?es
      = [edge_of (''a.py'', ''main'', 3) (''b.py'', ''helper'', 7),
         edge_of (''a.py'', ''main'', 3) (''b.py'', ''helper'', 7)]" by code_simp
  show ?thesis
    using export_dedup_first_seen [OF r] r a by simp
qed

subsection \<open>Where the recorded frames come from\<close>

lemma from_calls_mono: "from_calls base E fr \<Longrightarrow> E \<subseteq> F \<Longrightarrow> from_calls base F fr"
  by (auto simp: from_calls_def)

lemma frames_inv_mono: "frames_inv base E s \<Longrightarrow> E \<subseteq> F \<Longrightarrow> frames_inv base F s"
  unfolding frames_inv_def by (meson from_calls_mono)

lemma frames_inv_init: "frames_inv b E (CallTracer_init base cwd)"
  by (simp add: frames_inv_def CallTracer_init_def)

lemma step_frames:
  assumes inv: "frames_inv (base_dir s) E s" and step: "trace_calls s e = Inr s'"
  shows "frames_inv (base_dir s) (insert e E) s'"
proof (cases "eligible_call (base_dir s) e")
  case False
  have sub: "set (call_stack s') \<subseteq> set (call_stack s) \<and> call_records s' = call_records s"
  proof (cases "event e = ''return''")
    case True
    then show ?thesis
      using step trace_calls_return [of e s] by (auto split: if_splits dest: in_set_butlastD)
  next
    case nr: False
    then have "trace_calls s e = Inr s"
      using False trace_calls_call_ineligible [of e s] trace_calls_other [of e s]
      by (auto simp: eligible_call_def)
    with step show ?thesis by simp
  qed
  have "frames_inv (base_dir s) E s'"
    using inv sub unfolding frames_inv_def by auto
  then show ?thesis by (rule frames_inv_mono) auto
next
  case True
  then have c: "event e = ''call''" and el: "eligible (base_dir s) e"
    by (simp_all add: eligible_call_def)
  from step obtain rel where rel: "relative_to (co_filename e) (base_dir s) = Inr rel"
    using trace_calls_call_eligible [OF c el] by (auto split: sum.splits)
  let ?fr = "(rel, co_name e, f_lineno e)"
  let ?F = "insert e E"
  have new: "from_calls (base_dir s) ?F ?fr"
    using True rel by (auto simp: from_calls_def frame_of_def)
  have old: "frames_inv (base_dir s) ?F s"
    using inv by (rule frames_inv_mono) auto
  have stack: "call_stack s' = call_stack s @ [?fr]"
    using step rel trace_calls_call_eligible [OF c el] by (auto simp: Let_def split: if_splits)
  have recs: "call_records s' = call_records s
      \<or> (call_stack s \<noteq> [] \<and> call_records s' = call_records s @ [edge_of (last (call_stack s)) ?fr])"
    using step rel trace_calls_call_eligible [OF c el] by (auto simp: Let_def split: if_splits)
  have top: "call_stack s \<noteq> [] \<Longrightarrow> from_calls (base_dir s) ?F (last (call_stack s))"
    using old by (simp add: frames_inv_def)
  have "\<forall>fr \<in> set (call_stack s'). from_calls (base_dir s) ?F fr"
    using old new by (auto simp: stack frames_inv_def)
  moreover have "\<forall>r \<in> set (call_records s').
      \<exists>a b. from_calls (base_dir s) ?F a \<and> from_calls (base_dir s) ?F b \<and> r = edge_of a b"
  proof
    fix r assume r: "r \<in> set (call_records s')"
    show "\<exists>a b. from_calls (base_dir s) ?F a \<and> from_calls (base_dir s) ?F b \<and> r = edge_of a b"
    proof (cases "r \<in> set (call_records s)")
      case True
      then show ?thesis using old unfolding frames_inv_def by blast
    next
      case False
      with r recs have "call_stack s \<noteq> []" and "r = edge_of (last (call_stack s)) ?fr"
        by auto
      then show ?thesis using top new by blast
    qed
  qed
  ultimately show ?thesis unfolding frames_inv_def by blast
qed

lemma run_frames:
  "frames_inv (base_dir s) E s \<Longrightarrow> run s es = Inr s' \<Longrightarrow>
   frames_inv (base_dir s) (E \<union> set es) s'"
proof (induction es arbitrary: s E)
  case Nil
  then show ?case by simp
next
  case (Cons e es)
  from Cons.prems obtain s1 where s1: "trace_calls s e = Inr s1" and r: "run s1 es = Inr s'"
    by (auto split: sum.splits)
  have b: "base_dir s1 = base_dir s" using s1 by (rule base_dir_trace_calls)
  have "frames_inv (base_dir s1) (insert e E) s1"
    using step_frames [OF Cons.prems(1) s1] by (simp add: b)
  from Cons.IH [OF this r] show ?case by (simp add: b)
qed

lemma run_skip_ineligible_call:
  assumes "run s0 pre = Inr s" and "event x = ''call''" and "\<not> eligible (base_dir s) x"
  shows "run s0 (pre @ x # post) = run s0 (pre @ post)"
  using assms by (simp add: run_append trace_calls_call_ineligible)

lemma nested_edge:
  assumes inv: "records_inv s"
    and a: "eligible_call (base_dir s) a" and b: "eligible_call (base_dir s) b"
    and x: "event x = ''call''" "\<not> eligible (base_dir s) x"
    and r: "run s [a, x, b] = Inr s'"
  shows "\<exists>fa fb. frame_of (base_dir s) a = Some fa \<and> frame_of (base_dir s) b = Some fb
           \<and> call_stack s' = call_stack s @ [fa, fb]
           \<and> edge_of fa fb \<in> set (call_records s')"
proof -
  from r obtain s1 where s1: "trace_calls s a = Inr s1" and r1: "run s1 [x, b] = Inr s'"
    by (auto split: sum.splits)
  have b1: "base_dir s1 = base_dir s" using s1 by (rule base_dir_trace_calls)
  have "trace_calls s1 x = Inr s1"
    using x by (simp add: trace_calls_call_ineligible b1)
  with r1 have s2: "trace_calls s1 b = Inr s'" by (auto split: sum.splits)
  have ca: "event a = ''call''" and ea: "eligible (base_dir s) a"
    using a by (simp_all add: eligible_call_def)
  have cb: "event b = ''call''" and eb: "eligible (base_dir s1) b"
    using b by (simp_all add: eligible_call_def b1)
  from s1 obtain ra where ra: "relative_to (co_filename a) (base_dir s) = Inr ra"
    using trace_calls_call_eligible [OF ca ea] by (auto split: sum.splits)
  from s2 obtain rb where rb: "relative_to (co_filename b) (base_dir s1) = Inr rb"
    using trace_calls_call_eligible [OF cb eb] by (auto split: sum.splits)
  let ?fa = "(ra, co_name a, f_lineno a)" and ?fb = "(rb, co_name b, f_lineno b)"
  have st1: "call_stack s1 = call_stack s @ [?fa]"
    using s1 ra trace_calls_call_eligible [OF ca ea] by (auto simp: Let_def split: if_splits)
  have inv1: "records_inv s1" using step_records [OF inv s1] by simp
  have rec: "call_records s' = first_seen (call_records s1) (offered s1 b)"
    using step_records [OF inv1 s2] by simp
  have "offered s1 b = [edge_of ?fa ?fb]"
    using b rb st1 by (simp add: offered_def b1)
  then have "edge_of ?fa ?fb \<in> set (call_records s')"
    by (simp add: rec set_first_seen)
  moreover have "call_stack s' = call_stack s @ [?fa, ?fb]"
    using s2 rb st1 trace_calls_call_eligible [OF cb eb] by (auto simp: Let_def split: if_splits)
  moreover have "frame_of (base_dir s) a = Some ?fa" "frame_of (base_dir s) b = Some ?fb"
    using ra rb by (simp_all add: frame_of_def b1)
  ultimately show ?thesis by blast
qed

text \<open>
  C4. A call event that is not eligible, met by a tracer after any stream
  \<open>pre\<close>, is transparent. It leaves the tracer as it was (no push, no change of
  depth, no edge); the whole run goes on as if the event had not been in the stream,
  so the caller of every later eligible call is the same; every frame on the stack
  and every caller and callee of a recorded edge is the frame of an eligible call
  among the other events; and an eligible call \<open>a\<close>, then the ineligible call,
  then an eligible call \<open>b\<close> still gives the edge from \<open>a\<close> to \<open>b\<close>.
\<close>

theorem ineligible_call_transparent:
  assumes "run (CallTracer_init base cwd) pre = Inr s"
    and "event x = ''call''" and "\<not> eligible (base_dir s) x"
  shows "trace_calls s x = Inr s
    \<and> run (CallTracer_init base cwd) (pre @ x # post) = run (CallTracer_init base cwd) (pre @ post)
    \<and> (\<forall>s'. run (CallTracer_init base cwd) (pre @ x # post) = Inr s' \<longrightarrow>
          (\<forall>fr \<in> set (call_stack s'). from_calls (base_dir s) (set (pre @ post)) fr)
          \<and> (\<forall>r \<in> set (call_records s').
                \<exists>fa fb. from_calls (base_dir s) (set (pre @ post)) fa
                       \<and> from_calls (base_dir s) (set (pre @ post)) fb \<and> r = edge_of fa fb))
    \<and> (\<forall>a b s'. eligible_call (base_dir s) a \<and> eligible_call (base_dir s) b
                  \<and> run s [a, x, b] = Inr s' \<longrightarrow>
          (\<exists>fa fb. frame_of (base_dir s) a = Some fa \<and> frame_of (base_dir s) b = Some fb
                  \<and> call_stack s' = call_stack s @ [fa, fb]
                  \<and> edge_of fa fb \<in> set (call_records s')))"
proof -
  let ?i = "CallTracer_init base cwd"
  have bs: "base_dir s = base_dir ?i" using assms(1) by (rule base_dir_run)
  have one: "trace_calls s x = Inr s"
    using assms(2,3) by (rule trace_calls_call_ineligible)
  have skip: "run ?i (pre @ x # post) = run ?i (pre @ post)"
    using assms by (rule run_skip_ineligible_call)
  have three: "\<forall>s'. run ?i (pre @ x # post) = Inr s' \<longrightarrow>
          (\<forall>fr \<in> set (call_stack s'). from_calls (base_dir s) (set (pre @ post)) fr)
          \<and> (\<forall>r \<in> set (call_records s').
                \<exists>fa fb. from_calls (base_dir s) (set (pre @ post)) fa
                       \<and> from_calls (base_dir s) (set (pre @ post)) fb \<and> r = edge_of fa fb)"
  proof (intro allI impI)
    fix s' assume "run ?i (pre @ x # post) = Inr s'"
    then have "run ?i (pre @ post) = Inr s'" by (simp add: skip)
    from run_frames [OF frames_inv_init this, of "{}"]
    have "frames_inv (base_dir s) (set (pre @ post)) s'" by (simp add: bs)
    then show "(\<forall>fr \<in> set (call_stack s'). from_calls (base_dir s) (set (pre @ post)) fr)
          \<and> (\<forall>r \<in> set (call_records s').
                \<exists>fa fb. from_calls (base_dir s) (set (pre @ post)) fa
                       \<and> from_calls (base_dir s) (set (pre @ post)) fb \<and> r = edge_of fa fb)"
      unfolding frames_inv_def .
  qed
  have inv: "records_inv s"
    using run_records [OF records_inv_init assms(1)] by simp
  have four: "\<forall>a b s'. eligible_call (base_dir s) a \<and> eligible_call (base_dir s) b
                  \<and> run s [a, x, b] = Inr s' \<longrightarrow>
          (\<exists>fa fb. frame_of (base_dir s) a = Some fa \<and> frame_of (base_dir s) b = Some fb
                  \<and> call_stack s' = call_stack s @ [fa, fb]
                  \<and> edge_of fa fb \<in> set (call_records s'))"
    using nested_edge [OF inv _ _ assms(2,3)] by blast
  from one skip three four show ?thesis by blast
qed

theorem ineligible_call_transparent_witness:
  "run (CallTracer_init None ''/base'')
     [\<lparr>getcwd = ''/base'', event = ''call'', co_filename = ''/base/a.py'',
       co_name = ''main'', f_lineno = 3\<rparr>]
   = Inr \<lparr>base_dir = ''/base'', call_stack = [(''a.py'', ''main'', 3)],
          call_records = [], call_records_set = {}\<rparr>
   \<and> \<not> eligible ''/base''
       \<lparr>getcwd = ''/base'', event = ''call'', co_filename = ''/usr/lib/python3/json/decoder.py'',
        co_name = ''decode'', f_lineno = 10\<rparr>
   \<and> run (CallTracer_init None ''/base'')
     [\<lparr>getcwd = ''/base'', event = ''call'', co_filename = ''/base/a.py'',
       co_name = ''main'', f_lineno = 3\<rparr>,
      \<lparr>getcwd = ''/base'', event = ''call'', co_filename = ''/usr/lib/python3/json/decoder.py'',
       co_name = ''decode'', f_lineno = 10\<rparr>,
      \<lparr>getcwd = ''/base'', event = ''call'', co_filename = ''/base/b.py'',
       co_name = ''helper'', f_lineno = 7\<rparr>]
   = Inr \<lparr>base_dir = ''/base'',
          call_stack = [(''a.py'', ''main'', 3), (''b.py'', ''helper'', 7)],
          call_records = [edge_of (''a.py'', ''main'', 3) (''b.py'', ''helper'', 7)],
          call_records_set =
            {json_dumps_sort_keys (edge_of (''a.py'', ''main'', 3) (''b.py'', ''helper'', 7))}\<rparr>"
proof -
  let ?a = "\<lparr>getcwd = ''/base'', event = ''call'', co_filename = ''/base/a.py'',
       co_name = ''main'', f_lineno = 3\<rparr>"
  let ?x = "\<lparr>getcwd = ''/base'', event = ''call'', co_filename = ''/usr/lib/python3/json/decoder.py'',
       co_name = ''decode'', f_lineno = 10\<rparr>"
  let ?b = "\<lparr>getcwd = ''/base'', event = ''call'', co_filename = ''/base/b.py'',
       co_name = ''helper'', f_lineno = 7\<rparr>"
  let ?s = "\<lparr>base_dir = ''/base'', call_stack = [(''a.py'', ''main'', 3)],
          call_records = [], call_records_set = {}\<rparr>"
  have pre: "run (CallTracer_init None ''/base'') [?a] = Inr ?s" by code_simp
  have ev: "event ?x = ''call''" by simp
  have nx: "\<not> eligible ''/base'' ?x" by code_simp
  then have nx': "\<not> eligible (base_dir ?s) ?x" by simp
  have without: "run (CallTracer_init None ''/base'') [?a, ?b]
      = Inr \<lparr>base_dir = ''/base'',
          call_stack = [(''a.py'', ''main'', 3), (''b.py'', ''helper'', 7)],
          call_records = [edge_of (''a.py'', ''main'', 3) (''b.py'', ''helper'', 7)],
          call_records_set =
            {json_dumps_sort_keys (edge_of (''a.py'', ''main'', 3) (''b.py'', ''helper'', 7))}\<rparr>"
    by code_simp
  show ?thesis
    using ineligible_call_transparent [OF pre ev nx', of "[?b]"] pre nx without by simp
qed

text \<open>
  C1. The depth of the stack does not stay with the eligible calls that have not
  returned: a return event that is not eligible still pops the frame on top when the
  returning function has the same name. Here \<^verbatim>\<open>run\<close> of \<^verbatim>\<open>/base/a.py\<close> was
  called and has not returned; the return of \<^verbatim>\<open>run\<close> of
  \<^verbatim>\<open>/usr/lib/python3/subprocess.py\<close>, a file outside the base directory whose call
  was ignored, empties the stack.
\<close>

theorem ineligible_return_pops:
  "run (CallTracer_init None ''/base'')
     [\<lparr>getcwd = ''/base'', event = ''call'', co_filename = ''/base/a.py'',
       co_name = ''run'', f_lineno = 3\<rparr>,
      \<lparr>getcwd = ''/base'', event = ''call'', co_filename = ''/usr/lib/python3/subprocess.py'',
       co_name = ''run'', f_lineno = 505\<rparr>]
   = Inr \<lparr>base_dir = ''/base'', call_stack = [(''a.py'', ''run'', 3)],
          call_records = [], call_records_set = {}\<rparr>
   \<and> \<not> eligible ''/base''
        \<lparr>getcwd = ''/base'', event = ''return'', co_filename = ''/usr/lib/python3/subprocess.py'',
         co_name = ''run'', f_lineno = 550\<rparr>
   \<and> trace_calls
        \<lparr>base_dir = ''/base'', call_stack = [(''a.py'', ''run'', 3)],
         call_records = [], call_records_set = {}\<rparr>
        \<lparr>getcwd = ''/base'', event = ''return'', co_filename = ''/usr/lib/python3/subprocess.py'',
         co_name = ''run'', f_lineno = 550\<rparr>
     = Inr \<lparr>base_dir = ''/base'', call_stack = [], call_records = [], call_records_set = {}\<rparr>"
  by code_simp

theorem ineligible_return_pops_witness:
  "map_sum id (\<lambda>s. length (call_stack s))
     (run (CallTracer_init None ''/base'')
        [\<lparr>getcwd = ''/base'', event = ''call'', co_filename = ''/base/a.py'',
          co_name = ''run'', f_lineno = 3\<rparr>,
         \<lparr>getcwd = ''/base'', event = ''call'', co_filename = ''/usr/lib/python3/subprocess.py'',
          co_name = ''run'', f_lineno = 505\<rparr>]) = Inr 1
   \<and> map_sum id (\<lambda>s. length (call_stack s))
     (run (CallTracer_init None ''/base'')
        [\<lparr>getcwd = ''/base'', event = ''call'', co_filename = ''/base/a.py'',
          co_name = ''run'', f_lineno = 3\<rparr>,
         \<lparr>getcwd = ''/base'', event = ''call'', co_filename = ''/usr/lib/python3/subprocess.py'',
          co_name = ''run'', f_lineno = 505\<rparr>,
         \<lparr>getcwd = ''/base'', event = ''return'', co_filename = ''/usr/lib/python3/subprocess.py'',
          co_name = ''run'', f_lineno = 550\<rparr>]) = Inr 0"
  using ineligible_return_pops run_append [of "CallTracer_init None ''/base''"
    "[\<lparr>getcwd = ''/base'', event = ''call'', co_filename = ''/base/a.py'',
          co_name = ''run'', f_lineno = 3\<rparr>,
         \<lparr>getcwd = ''/base'', event = ''call'', co_filename = ''/usr/lib/python3/subprocess.py'',
          co_name = ''run'', f_lineno = 505\<rparr>]"
    "[\<lparr>getcwd = ''/base'', event = ''return'', co_filename = ''/usr/lib/python3/subprocess.py'',
          co_name = ''run'', f_lineno = 550\<rparr>]"]
  by simp

text \<open>
  C6. The hook raises. A frame whose file name is relative and resolves under the
  base directory passes \<^verbatim>\<open>_in_base_dir\<close>, which makes the name absolute first;
  \<^verbatim>\<open>Path(file_name).relative_to(self.base_dir)\<close> then takes the name as it is and
  raises \<^verbatim>\<open>ValueError\<close>.
\<close>

theorem hook_raises_on_relative_file_name:
  "eligible ''/base''
     \<lparr>getcwd = ''/base'', event = ''call'', co_filename = ''test.py'',
      co_name = ''test_function'', f_lineno = 10\<rparr>
   \<and> trace_calls (CallTracer_init None ''/base'')
       \<lparr>getcwd = ''/base'', event = ''call'', co_filename = ''test.py'',
        co_name = ''test_function'', f_lineno = 10\<rparr>
     = Inl ValueError"
  by code_simp

theorem hook_raises_on_relative_file_name_witness:
  "isl (run (CallTracer_init None ''/base'')
          [\<lparr>getcwd = ''/base'', event = ''call'', co_filename = ''test.py'',
            co_name = ''test_function'', f_lineno = 10\<rparr>])"
  using hook_raises_on_relative_file_name by simp

section \<open>The claims about discovery and orchestration\<close>

subsection \<open>Node ids\<close>

lemma re_sub_brackets_prefix:
  "CHR ''['' \<notin> set s \<Longrightarrow> re_sub_brackets (s @ t) = s @ re_sub_brackets t"
  by (induction s) auto

lemma find_close_params:
  "CHR '']'' \<notin> set p \<Longrightarrow> CHR 0x0A \<notin> set p \<Longrightarrow> find_close (p @ CHR '']'' # rest) = Some rest"
  by (induction p) auto

lemma re_sub_brackets_suffix:
  assumes "CHR '']'' \<notin> set p" and "CHR 0x0A \<notin> set p"
  shows "re_sub_brackets (''['' @ p @ '']'') = []"
  using find_close_params [OF assms, of "[]"] by simp

lemma split_dcolon_plain: "CHR '':'' \<notin> set s \<Longrightarrow> split_dcolon s = [s]"
  by (induction s rule: split_dcolon.induct) auto

lemma split_dcolon_segment:
  "CHR '':'' \<notin> set s \<Longrightarrow> split_dcolon (s @ ''::'' @ t) = s # split_dcolon t"
proof (induction s)
  case Nil
  then show ?case by simp
next
  case (Cons a s)
  then have a: "a \<noteq> CHR '':''" and IH: "split_dcolon (s @ ''::'' @ t) = s # split_dcolon t"
    by auto
  obtain d ds where d: "s @ ''::'' @ t = d # ds" by (cases "s @ ''::'' @ t") auto
  show ?case using a IH d by simp
qed

lemma split_dcolon_join_sep:
  "sep = ''::'' \<Longrightarrow> segs \<noteq> [] \<Longrightarrow> \<forall>s \<in> set segs. CHR '':'' \<notin> set s \<Longrightarrow>
   split_dcolon (join sep segs) = segs"
proof (induction sep segs rule: join.induct)
  case (1 sep)
  then show ?case by simp
next
  case (2 sep p)
  then show ?case by (simp add: split_dcolon_plain)
next
  case (3 sep p q ps)
  then show ?case using split_dcolon_segment [of p "join ''::'' (q # ps)"] by simp
qed

lemma split_dcolon_join:
  "segs \<noteq> [] \<Longrightarrow> \<forall>s \<in> set segs. CHR '':'' \<notin> set s \<Longrightarrow>
   split_dcolon (join ''::'' segs) = segs"
  by (rule split_dcolon_join_sep) simp_all

lemma no_bracket_join_sep:
  "sep = ''::'' \<Longrightarrow> \<forall>s \<in> set segs. CHR ''['' \<notin> set s \<Longrightarrow>
   CHR ''['' \<notin> set (join sep segs)"
  by (induction sep segs rule: join.induct) auto

lemma no_bracket_join:
  "\<forall>s \<in> set segs. CHR ''['' \<notin> set s \<Longrightarrow> CHR ''['' \<notin> set (join ''::'' segs)"
  by (rule no_bracket_join_sep) simp_all

text \<open>
  X1. Where the parts of the node id \<open>filepath::...::funcname\<close> hold no colon and
  no opening bracket, and the parameters of a suffix in brackets hold no closing
  bracket and no line break, \<open>get_test_func_id\<close> returns
  \<open>filepath:(L+1):funcname\<close> for the reported line \<open>L\<close>, the suffix gone.
\<close>

theorem get_test_func_id_plain_suffix:
  assumes node: "nodeid tr = join ''::'' (filepath # mid @ [funcname]) @ suffix"
    and line: "lineno tr = L"
    and segs: "\<forall>s \<in> set (filepath # mid @ [funcname]). CHR '':'' \<notin> set s \<and> CHR ''['' \<notin> set s"
    and suffix: "suffix = [] \<or> (\<exists>params. suffix = ''['' @ params @ '']''
                    \<and> CHR '']'' \<notin> set params \<and> CHR 0x0A \<notin> set params)"
  shows "get_test_func_id tr = filepath @ '':'' @ str_int (L + 1) @ '':'' @ funcname"
proof -
  let ?segs = "filepath # mid @ [funcname]"
  have "re_sub_brackets suffix = []"
    using suffix re_sub_brackets_suffix by auto
  moreover have "CHR ''['' \<notin> set (join ''::'' ?segs)"
    using segs by (intro no_bracket_join) blast
  then have "re_sub_brackets (join ''::'' ?segs @ suffix)
      = join ''::'' ?segs @ re_sub_brackets suffix"
    by (rule re_sub_brackets_prefix)
  ultimately have strip: "re_sub_brackets (nodeid tr) = join ''::'' ?segs"
    by (simp only: node append_Nil2)
  have split: "split_dcolon (join ''::'' ?segs) = ?segs"
    using segs by (intro split_dcolon_join) auto
  show ?thesis
    by (simp add: get_test_func_id_def Let_def strip split line del: join.simps)
qed

theorem get_test_func_id_plain_suffix_witness:
  "get_test_func_id \<lparr>nodeid = ''test_file::test_function'', lineno = 9, outcome = ''passed''\<rparr>
     = ''test_file:10:test_function''
   \<and> get_test_func_id
       \<lparr>nodeid = ''test_file.py::TestClass::test_method[param1-param2]'', lineno = 29,
        outcome = ''passed''\<rparr>
     = ''test_file.py:30:test_method''"
proof -
  have ten: "str_int 10 = ''10''" and thirty: "str_int 30 = ''30''" by code_simp+
  have a: "get_test_func_id \<lparr>nodeid = ''test_file::test_function'', lineno = 9, outcome = ''passed''\<rparr>
     = ''test_file'' @ '':'' @ str_int (9 + 1) @ '':'' @ ''test_function''"
    by (rule get_test_func_id_plain_suffix [where mid = "[]" and suffix = "[]"]) simp_all
  have b: "get_test_func_id
       \<lparr>nodeid = ''test_file.py::TestClass::test_method[param1-param2]'', lineno = 29,
        outcome = ''passed''\<rparr>
     = ''test_file.py'' @ '':'' @ str_int (29 + 1) @ '':'' @ ''test_method''"
    by (rule get_test_func_id_plain_suffix [where mid = "[''TestClass'']" and suffix = "''[param1-param2]''"])
      simp_all
  show ?thesis using a b by (simp add: ten thirty)
qed

text \<open>
  C9. The parametrization suffix is not always stripped. \<^verbatim>\<open>re.sub\<close> removes each
  bracket group up to the first closing bracket after it, so a parameter id that
  holds a closing bracket leaves its tail in the function name: for the node id
  \<^verbatim>\<open>t.py::test_p[a]b]\<close>, the test \<^verbatim>\<open>test_p\<close> with the parameter id \<^verbatim>\<open>a]b\<close>,
  reported at line 9, the result is \<^verbatim>\<open>t.py:10:test_pb]\<close> and not
  \<^verbatim>\<open>t.py:10:test_p\<close>.
\<close>

theorem suffix_with_bracket_not_stripped:
  "get_test_func_id \<lparr>nodeid = ''t.py::test_p[a]b]'', lineno = 9, outcome = ''passed''\<rparr>
     = ''t.py:10:test_pb]''
   \<and> get_test_func_id \<lparr>nodeid = ''t.py::test_p[a]b]'', lineno = 9, outcome = ''passed''\<rparr>
     \<noteq> ''t.py:10:test_p''"
  by code_simp

theorem suffix_with_bracket_not_stripped_witness:
  "re_sub_brackets ''t.py::test_p[a]b]'' = ''t.py::test_pb]''
   \<and> last (split_dcolon (re_sub_brackets ''t.py::test_p[a]b]'')) = ''test_pb]''
   \<and> get_test_func_id \<lparr>nodeid = ''t.py::test_p[a]b]'', lineno = 9, outcome = ''passed''\<rparr>
     = ''t.py:10:test_pb]''"
proof -
  have "re_sub_brackets ''t.py::test_p[a]b]'' = ''t.py::test_pb]''" by code_simp
  moreover have "last (split_dcolon (re_sub_brackets ''t.py::test_p[a]b]'')) = ''test_pb]''"
    by code_simp
  ultimately show ?thesis using suffix_with_bracket_not_stripped by simp
qed

subsection \<open>The shuffle\<close>

lemma length_shuffle_from: "length (fst (shuffle_from rb k g x)) = length x"
  by (induction k arbitrary: g x) (auto split: prod.splits)

lemma mset_shuffle_from:
  assumes "\<forall>g n. 0 < n \<longrightarrow> fst (rb g n) < n"
  shows "k < length x \<Longrightarrow> mset (fst (shuffle_from rb k g x)) = mset x"
proof (induction k arbitrary: g x)
  case 0
  then show ?case by simp
next
  case (Suc k)
  obtain j g' where d: "rb g (Suc k + 1) = (j, g')" by (cases "rb g (Suc k + 1)") auto
  have "fst (rb g (Suc k + 1)) < Suc k + 1" using assms by simp
  then have j: "j < length x" using d Suc.prems(1) by simp
  have "mset (x[Suc k := x ! j, j := x ! Suc k]) = mset x"
    using Suc.prems j by (simp add: mset_swap)
  then show ?case using Suc.IH [of "x[Suc k := x ! j, j := x ! Suc k]" g'] Suc.prems d
    by simp
qed

lemma mset_shuffle:
  assumes "\<forall>g n. 0 < n \<longrightarrow> fst (rb g n) < n"
  shows "mset (fst (shuffle rb g x)) = mset x"
proof (cases x)
  case Nil
  then show ?thesis by (simp add: shuffle_def)
next
  case (Cons a as)
  then show ?thesis using mset_shuffle_from [OF assms, of "length x - 1" x g]
    by (simp add: shuffle_def)
qed

lemma swap_inj:
  assumes "i < length x" and "j < length x" and "length y = length x"
    and "x[i := x ! j, j := x ! i] = y[i := y ! j, j := y ! i]"
  shows "x = y"
proof (rule nth_equalityI)
  show "length x = length y" using assms by simp
next
  fix n assume n: "n < length x"
  from assms(4) have eq: "\<And>m. (x[i := x ! j, j := x ! i]) ! m = (y[i := y ! j, j := y ! i]) ! m"
    by simp
  show "x ! n = y ! n"
    using eq [of n] eq [of i] eq [of j] n assms(1-3)
    by (auto simp: nth_list_update split: if_splits)
qed

lemma shuffle_from_inj:
  assumes "\<forall>g n. 0 < n \<longrightarrow> fst (rb g n) < n"
  shows "k < length x \<Longrightarrow> length y = length x \<Longrightarrow>
    fst (shuffle_from rb k g x) = fst (shuffle_from rb k g y) \<Longrightarrow> x = y"
proof (induction k arbitrary: g x y)
  case 0
  then show ?case by simp
next
  case (Suc k)
  obtain j g' where d: "rb g (Suc k + 1) = (j, g')" by (cases "rb g (Suc k + 1)") auto
  have "fst (rb g (Suc k + 1)) < Suc k + 1" using assms by simp
  then have j: "j < length x" using d Suc.prems(1) by simp
  let ?x = "x[Suc k := x ! j, j := x ! Suc k]" and ?y = "y[Suc k := y ! j, j := y ! Suc k]"
  have sx: "shuffle_from rb (Suc k) g x = shuffle_from rb k g' ?x"
    and sy: "shuffle_from rb (Suc k) g y = shuffle_from rb k g' ?y"
    using d by simp_all
  have e: "fst (shuffle_from rb k g' ?x) = fst (shuffle_from rb k g' ?y)"
    using Suc.prems(3) unfolding sx sy .
  have kx: "k < length ?x" and ly: "length ?y = length ?x"
    using Suc.prems(1,2) by simp_all
  have xy: "?x = ?y" using kx ly e by (rule Suc.IH)
  have k: "Suc k < length x" using Suc.prems(1) .
  show ?case using k j Suc.prems(2) xy by (rule swap_inj)
qed

lemma shuffle_inj:
  assumes "\<forall>g n. 0 < n \<longrightarrow> fst (rb g n) < n" and "length y = length x"
    and "fst (shuffle rb g x) = fst (shuffle rb g y)"
  shows "x = y"
proof (cases x)
  case Nil
  then show ?thesis using assms(2) by simp
next
  case (Cons a as)
  then show ?thesis
    using shuffle_from_inj [OF assms(1), of "length x - 1" x y g] assms(2,3)
    by (simp add: shuffle_def)
qed

subsection \<open>The cap\<close>

text \<open>
  C10. With the cap 0, \<open>collect_tests\<close> returns what it returns with no cap:
  nothing is cut, and (where \<^verbatim>\<open>list(set(xs))\<close> lists the elements of \<open>xs\<close> and
  the generator draws below its bound) the result holds every canonical test id.
  Only a cap \<open>n\<close> other than 0 cuts the list, to its slice \<^verbatim>\<open>[:n]\<close>.
\<close>

theorem zero_cap_is_no_cap:
  "collect_tests rt g returncode collectors random random_seed (Some 0)
     = collect_tests rt g returncode collectors random random_seed None
   \<and> (n \<noteq> 0 \<longrightarrow>
        map_sum id fst (collect_tests rt g returncode collectors random random_seed (Some n))
        = map_sum id (\<lambda>r. slice_to n (fst r))
            (collect_tests rt g returncode collectors random random_seed None))
   \<and> (returncode = 0 \<and> (\<forall>xs. set (set_iter rt xs) = set xs)
        \<and> (\<forall>g n. 0 < n \<longrightarrow> fst (rnd_randbelow rt g n) < n) \<longrightarrow>
        (\<exists>tests g'. collect_tests rt g returncode collectors random random_seed (Some 0)
                       = Inr (tests, g')
           \<and> set tests = set (canonical_ids collectors)
           \<and> length tests = length (set_iter rt (canonical_ids collectors))))"
proof -
  have a: "collect_tests rt g returncode collectors random random_seed (Some 0)
     = collect_tests rt g returncode collectors random random_seed None"
    by (simp add: collect_tests_def)
  have b: "n \<noteq> 0 \<longrightarrow>
        map_sum id fst (collect_tests rt g returncode collectors random random_seed (Some n))
        = map_sum id (\<lambda>r. slice_to n (fst r))
            (collect_tests rt g returncode collectors random random_seed None)"
    by (auto simp: collect_tests_def Let_def split: prod.splits)
  have c: "returncode = 0 \<and> (\<forall>xs. set (set_iter rt xs) = set xs)
        \<and> (\<forall>g n. 0 < n \<longrightarrow> fst (rnd_randbelow rt g n) < n) \<longrightarrow>
        (\<exists>tests g'. collect_tests rt g returncode collectors random random_seed (Some 0)
                       = Inr (tests, g')
           \<and> set tests = set (canonical_ids collectors)
           \<and> length tests = length (set_iter rt (canonical_ids collectors)))"
  proof (intro impI, elim conjE)
    assume rc: "returncode = 0" and it: "\<forall>xs. set (set_iter rt xs) = set xs"
      and rb: "\<forall>g n. 0 < n \<longrightarrow> fst (rnd_randbelow rt g n) < n"
    let ?ids = "set_iter rt (canonical_ids collectors)"
    let ?sh = "shuffle (rnd_randbelow rt) (rnd_seed rt random_seed) ?ids"
    have "mset (fst ?sh) = mset ?ids" using rb by (rule mset_shuffle)
    then have s: "set (fst ?sh) = set ?ids" and l: "length (fst ?sh) = length ?ids"
      by (metis set_mset_mset, metis size_mset)
    show "\<exists>tests g'. collect_tests rt g returncode collectors random random_seed (Some 0)
                       = Inr (tests, g')
           \<and> set tests = set (canonical_ids collectors)
           \<and> length tests = length ?ids"
      using rc it s l by (cases ?sh) (auto simp: collect_tests_def Let_def)
  qed
  from a b c show ?thesis by blast
qed

theorem zero_cap_is_no_cap_witness:
  "collect_tests
     \<lparr>set_iter = remdups, rnd_seed = (\<lambda>s. nat \<bar>s\<bar>), rnd_randbelow = (\<lambda>g n. (g mod n, g + 1))\<rparr>
     (7::nat) 0
     [[\<lparr>res_type = ''Module'', res_nodeid = ''test_file.py''\<rparr>,
       \<lparr>res_type = ''Function'', res_nodeid = ''test_file.py::test_func1''\<rparr>,
       \<lparr>res_type = ''Function'', res_nodeid = ''test_file.py::test_func2[1-2]''\<rparr>,
       \<lparr>res_type = ''Function'', res_nodeid = ''test_file.py::test_func2[3-4]''\<rparr>]]
     False 42 (Some 0)
   = Inr ([''test_file.py::test_func1'', ''test_file.py::test_func2''], 7)
   \<and> collect_tests
     \<lparr>set_iter = remdups, rnd_seed = (\<lambda>s. nat \<bar>s\<bar>), rnd_randbelow = (\<lambda>g n. (g mod n, g + 1))\<rparr>
     (7::nat) 0
     [[\<lparr>res_type = ''Module'', res_nodeid = ''test_file.py''\<rparr>,
       \<lparr>res_type = ''Function'', res_nodeid = ''test_file.py::test_func1''\<rparr>,
       \<lparr>res_type = ''Function'', res_nodeid = ''test_file.py::test_func2[1-2]''\<rparr>,
       \<lparr>res_type = ''Function'', res_nodeid = ''test_file.py::test_func2[3-4]''\<rparr>]]
     False 42 (Some 1)
   = Inr ([''test_file.py::test_func1''], 7)"
proof -
  let ?rt = "\<lparr>set_iter = remdups, rnd_seed = (\<lambda>s. nat \<bar>s\<bar>),
              rnd_randbelow = (\<lambda>g n. (g mod n, g + 1))\<rparr> :: nat runtime"
  let ?cs = "[[\<lparr>res_type = ''Module'', res_nodeid = ''test_file.py''\<rparr>,
       \<lparr>res_type = ''Function'', res_nodeid = ''test_file.py::test_func1''\<rparr>,
       \<lparr>res_type = ''Function'', res_nodeid = ''test_file.py::test_func2[1-2]''\<rparr>,
       \<lparr>res_type = ''Function'', res_nodeid = ''test_file.py::test_func2[3-4]''\<rparr>]]"
  have none: "collect_tests ?rt (7::nat) 0 ?cs False 42 None
      = Inr ([''test_file.py::test_func1'', ''test_file.py::test_func2''], 7)"
    by code_simp
  have one: "collect_tests ?rt (7::nat) 0 ?cs False 42 (Some 1)
      = Inr ([''test_file.py::test_func1''], 7)"
    by code_simp
  show ?thesis
    using zero_cap_is_no_cap [of ?rt 7 0 ?cs False 42 1] none one by simp
qed

subsection \<open>One test, and the batch\<close>

lemma gather_map_filter: "gather result cs traces = traces @ List.map_filter result cs"
  by (induction cs arbitrary: traces) (auto simp: List.map_filter_simps split: option.splits)

lemma mset_map_filter:
  "mset (List.map_filter f xs) = image_mset (\<lambda>x. the (f x)) (filter_mset (\<lambda>x. f x \<noteq> None) (mset xs))"
  by (simp add: List.map_filter_def comp_def)

text \<open>
  C7. \<open>trace_test\<close> returns \<^verbatim>\<open>None\<close> exactly when something failed: an effect
  raised (no temporary directory, a timeout, a return code other than 0, an
  unreadable or empty report, an unreadable trace file, a failing removal of the
  directory) or the reported outcome is not \<^verbatim>\<open>passed\<close>, whatever the trace file
  holds. It returns in every case, so nothing propagates to the batch; and the traces
  \<open>generate_test_traces\<close> writes are, in whatever order the tasks complete, exactly
  the results that are not \<^verbatim>\<open>None\<close>.
\<close>

theorem trace_test_empty_on_failure:
  "(trace_test io test = None \<longleftrightarrow>
      (\<exists>e. tempdir io = Inl e)
      \<or> (\<exists>e. subprocess_run io = Inl e)
      \<or> (\<exists>returncode. subprocess_run io = Inr returncode \<and> returncode \<noteq> 0)
      \<or> (\<exists>e. report_tests io = Inl e)
      \<or> report_tests io = Inr []
      \<or> (\<exists>r rs. report_tests io = Inr (r # rs) \<and> outcome r \<noteq> ''passed'')
      \<or> (\<exists>e. trace_file io = Inl e)
      \<or> (\<exists>e. cleanup io = Some e))
   \<and> (mset completed = mset [0..<length tests] \<longrightarrow>
        mset (generate_test_traces ios tests completed)
        = mset (List.map_filter (\<lambda>i. trace_test (ios i) (tests ! i)) [0..<length tests]))"
proof -
  have one: "trace_test io test = None \<longleftrightarrow>
      (\<exists>e. tempdir io = Inl e)
      \<or> (\<exists>e. subprocess_run io = Inl e)
      \<or> (\<exists>returncode. subprocess_run io = Inr returncode \<and> returncode \<noteq> 0)
      \<or> (\<exists>e. report_tests io = Inl e)
      \<or> report_tests io = Inr []
      \<or> (\<exists>r rs. report_tests io = Inr (r # rs) \<and> outcome r \<noteq> ''passed'')
      \<or> (\<exists>e. trace_file io = Inl e)
      \<or> (\<exists>e. cleanup io = Some e)"
    by (cases "tempdir io"; cases "subprocess_run io"; cases "report_tests io";
        cases "trace_file io"; cases "cleanup io")
       (auto simp: trace_test_def try_body_def leave_with_def with_body_def run_trace_test_def
             split: list.splits)
  have two: "mset completed = mset [0..<length tests] \<longrightarrow>
        mset (generate_test_traces ios tests completed)
        = mset (List.map_filter (\<lambda>i. trace_test (ios i) (tests ! i)) [0..<length tests])"
    by (simp add: generate_test_traces_def gather_map_filter mset_map_filter)
  from one two show ?thesis by blast
qed

theorem trace_test_empty_on_failure_witness:
  "trace_test
     \<lparr>tempdir = Inr ''/tmp/tmpab12'', subprocess_run = Inr 0,
      report_tests = Inr [\<lparr>nodeid = ''t.py::test_b'', lineno = 4, outcome = ''failed''\<rparr>],
      trace_file = Inr [JDict []], cleanup = None\<rparr> ''t.py::test_b'' = None
   \<and> trace_test
     \<lparr>tempdir = Inr ''/tmp/tmpcd34'', subprocess_run = Inl TimeoutExpired,
      report_tests = Inl OSError, trace_file = Inl OSError, cleanup = None\<rparr> ''t.py::test_c'' = None
   \<and> generate_test_traces
       (\<lambda>i. if i = 0
             then \<lparr>tempdir = Inr ''/tmp/tmpzz99'', subprocess_run = Inr 0,
                   report_tests = Inr [\<lparr>nodeid = ''t.py::test_a'', lineno = 0, outcome = ''passed''\<rparr>],
                   trace_file = Inr [], cleanup = None\<rparr>
             else \<lparr>tempdir = Inr ''/tmp/tmpab12'', subprocess_run = Inr 0,
                   report_tests = Inr [\<lparr>nodeid = ''t.py::test_b'', lineno = 4, outcome = ''failed''\<rparr>],
                   trace_file = Inr [JDict []], cleanup = None\<rparr>)
       [''t.py::test_a'', ''t.py::test_b''] [1, 0]
     = [\<lparr>test_id = ''t.py::test_a'', test_func_id = ''t.py:1:test_a'', call_relations = []\<rparr>]"
proof -
  let ?fail = "\<lparr>tempdir = Inr ''/tmp/tmpab12'', subprocess_run = Inr 0,
      report_tests = Inr [\<lparr>nodeid = ''t.py::test_b'', lineno = 4, outcome = ''failed''\<rparr>],
      trace_file = Inr [JDict []], cleanup = None\<rparr>"
  let ?timeout = "\<lparr>tempdir = Inr ''/tmp/tmpcd34'', subprocess_run = Inl TimeoutExpired,
      report_tests = Inl OSError, trace_file = Inl OSError, cleanup = None\<rparr>"
  let ?ios = "\<lambda>i::nat. if i = 0
             then \<lparr>tempdir = Inr ''/tmp/tmpzz99'', subprocess_run = Inr 0,
                   report_tests = Inr [\<lparr>nodeid = ''t.py::test_a'', lineno = 0, outcome = ''passed''\<rparr>],
                   trace_file = Inr [], cleanup = None\<rparr>
             else ?fail"
  have p: "mset [1, 0::nat] = mset [0..<length [''t.py::test_a'', ''t.py::test_b'']]"
    by (simp add: upt_rec)
  have g: "generate_test_traces ?ios [''t.py::test_a'', ''t.py::test_b''] [1, 0]
     = [\<lparr>test_id = ''t.py::test_a'', test_func_id = ''t.py:1:test_a'', call_relations = []\<rparr>]"
    by code_simp
  have a: "trace_test ?fail ''t.py::test_b'' = None"
    using trace_test_empty_on_failure [of ?fail "''t.py::test_b''" "[1, 0]"
        "[''t.py::test_a'', ''t.py::test_b'']" ?ios] p
    by simp
  have b: "trace_test ?timeout ''t.py::test_c'' = None"
    using trace_test_empty_on_failure [of ?timeout "''t.py::test_c''" "[1, 0]"
        "[''t.py::test_a'', ''t.py::test_b'']" ?ios] p
    by simp
  from a b g show ?thesis by simp
qed

subsection \<open>The seeded shuffle\<close>

text \<open>
  C8. The seed does not fix the order. \<open>collect_tests\<close> shuffles the list
  \<^verbatim>\<open>list(set(...))\<close>, whose order Python leaves open (for strings it follows the
  hash seed of the process). For two runs over the same candidate set with the same
  random seed and the same generator, whatever the state of the generator before, the
  results are equal exactly when the two runs listed the set in the same order: a run
  that lists it in another order returns another order.
\<close>

theorem shuffle_order_follows_set_iteration:
  assumes "rnd_seed rt1 = rnd_seed rt2" and "rnd_randbelow rt1 = rnd_randbelow rt2"
    and "\<forall>g n. 0 < n \<longrightarrow> fst (rnd_randbelow rt1 g n) < n"
    and "mset (set_iter rt1 (canonical_ids collectors))
           = mset (set_iter rt2 (canonical_ids collectors))"
  shows "map_sum id fst (collect_tests rt1 g1 0 collectors True random_seed None)
           = map_sum id fst (collect_tests rt2 g2 0 collectors True random_seed None)
         \<longleftrightarrow> set_iter rt1 (canonical_ids collectors) = set_iter rt2 (canonical_ids collectors)"
proof -
  let ?x = "set_iter rt1 (canonical_ids collectors)"
  let ?y = "set_iter rt2 (canonical_ids collectors)"
  let ?rb = "rnd_randbelow rt1" and ?g = "rnd_seed rt1 random_seed"
  have r1: "map_sum id fst (collect_tests rt1 g1 0 collectors True random_seed None)
      = Inr (fst (shuffle ?rb ?g ?x))"
    by (simp add: collect_tests_def Let_def split: prod.splits)
  have r2: "map_sum id fst (collect_tests rt2 g2 0 collectors True random_seed None)
      = Inr (fst (shuffle ?rb ?g ?y))"
    using assms(1,2) by (simp add: collect_tests_def Let_def split: prod.splits)
  have len: "length ?y = length ?x"
    using assms(4) by (metis size_mset)
  have "fst (shuffle ?rb ?g ?x) = fst (shuffle ?rb ?g ?y) \<longleftrightarrow> ?x = ?y"
    using shuffle_inj [OF assms(3) len] by auto
  then show ?thesis by (simp add: r1 r2)
qed

theorem shuffle_order_follows_set_iteration_witness:
  "collect_tests
     \<lparr>set_iter = remdups, rnd_seed = (\<lambda>s. nat \<bar>s\<bar>), rnd_randbelow = (\<lambda>g n. (g mod n, g + 1))\<rparr>
     (0::nat) 0
     [[\<lparr>res_type = ''Function'', res_nodeid = ''t.py::test_a''\<rparr>,
       \<lparr>res_type = ''Function'', res_nodeid = ''t.py::test_b''\<rparr>,
       \<lparr>res_type = ''Function'', res_nodeid = ''t.py::test_c''\<rparr>]]
     True 42 None
   = Inr ([''t.py::test_c'', ''t.py::test_b'', ''t.py::test_a''], 44)
   \<and> collect_tests
     \<lparr>set_iter = (\<lambda>xs. rev (remdups xs)), rnd_seed = (\<lambda>s. nat \<bar>s\<bar>),
      rnd_randbelow = (\<lambda>g n. (g mod n, g + 1))\<rparr>
     (0::nat) 0
     [[\<lparr>res_type = ''Function'', res_nodeid = ''t.py::test_a''\<rparr>,
       \<lparr>res_type = ''Function'', res_nodeid = ''t.py::test_b''\<rparr>,
       \<lparr>res_type = ''Function'', res_nodeid = ''t.py::test_c''\<rparr>]]
     True 42 None
   = Inr ([''t.py::test_a'', ''t.py::test_b'', ''t.py::test_c''], 44)"
proof -
  let ?rt1 = "\<lparr>set_iter = remdups, rnd_seed = (\<lambda>s. nat \<bar>s\<bar>),
               rnd_randbelow = (\<lambda>g n. (g mod n, g + 1))\<rparr> :: nat runtime"
  let ?rt2 = "\<lparr>set_iter = (\<lambda>xs. rev (remdups xs)), rnd_seed = (\<lambda>s. nat \<bar>s\<bar>),
               rnd_randbelow = (\<lambda>g n. (g mod n, g + 1))\<rparr> :: nat runtime"
  let ?cs = "[[\<lparr>res_type = ''Function'', res_nodeid = ''t.py::test_a''\<rparr>,
       \<lparr>res_type = ''Function'', res_nodeid = ''t.py::test_b''\<rparr>,
       \<lparr>res_type = ''Function'', res_nodeid = ''t.py::test_c''\<rparr>]]"
  have a: "collect_tests ?rt1 (0::nat) 0 ?cs True 42 None
      = Inr ([''t.py::test_c'', ''t.py::test_b'', ''t.py::test_a''], 44)"
    by code_simp
  have b: "collect_tests ?rt2 (0::nat) 0 ?cs True 42 None
      = Inr ([''t.py::test_a'', ''t.py::test_b'', ''t.py::test_c''], 44)"
    by code_simp
  have h1: "rnd_seed ?rt1 = rnd_seed ?rt2" and h2: "rnd_randbelow ?rt1 = rnd_randbelow ?rt2"
    by simp_all
  have h3: "\<forall>g n. 0 < n \<longrightarrow> fst (rnd_randbelow ?rt1 g n) < n" by simp
  have h4: "mset (set_iter ?rt1 (canonical_ids ?cs)) = mset (set_iter ?rt2 (canonical_ids ?cs))"
    by simp
  show ?thesis
    using shuffle_order_follows_set_iteration [OF h1 h2 h3 h4, of 0 42 0] a b by simp
qed

end
